theory Spec2Isabelle
  imports Main "HOL-Library.Word" "HOL-Library.Multiset"
begin

section \<open>Strings\<close>

text \<open>
  A string of the program is a sequence of UTF-16 code units. The literals of the
  source that the development needs are ASCII and are written through \<open>ascii\<close>.
\<close>

type_synonym code_unit = "16 word"
type_synonym jsstring = "code_unit list"

definition ascii :: "string \<Rightarrow> jsstring" where
  "ascii s = map of_char s"

text \<open>
  \<open>toLowerCase\<close> is the built-in of the language, not code of the repository. It is
  modelled unit by unit on the code units whose image can survive what the two callers
  do next: the ASCII capitals, the fullwidth capitals (U+FF21..U+FF3A), U+0130 (which
  becomes U+0069 U+0307) and U+212A (the Kelvin sign, which becomes U+006B). Every other
  unit is left as it is: the built-in changes other cased letters too, but only into
  units outside a-z, 0-9, U+4E00..U+9FA5 and the fullwidth forms, which both callers
  strip afterwards.
\<close>

definition lower_unit :: "code_unit \<Rightarrow> code_unit list" where
  "lower_unit u =
     (if (0x41 \<le> u \<and> u \<le> 0x5A) \<or> (0xFF21 \<le> u \<and> u \<le> 0xFF3A) then [u + 0x20]
      else if u = 0x130 then [0x69, 0x307]
      else if u = 0x212A then [0x6B]
      else [u])"

definition toLowerCase :: "jsstring \<Rightarrow> jsstring" where
  "toLowerCase s = concat (map lower_unit s)"

text \<open>The character class \<open>[^a-z0-9U+4E00-U+9FA5]\<close>, negated: the units that \<open>replace\<close> keeps.\<close>

definition is_key_unit :: "code_unit \<Rightarrow> bool" where
  "is_key_unit u \<longleftrightarrow>
     (0x61 \<le> u \<and> u \<le> 0x7A) \<or> (0x30 \<le> u \<and> u \<le> 0x39) \<or> (0x4E00 \<le> u \<and> u \<le> 0x9FA5)"

text \<open>\<open>.replace(/[^a-z0-9U+4E00-U+9FA5]/g, '')\<close>\<close>

definition replace_non_key :: "jsstring \<Rightarrow> jsstring" where
  "replace_non_key s = filter is_key_unit s"

text \<open>
  \<open>.replace(/[U+FF21-U+FF3A U+FF41-U+FF5A U+FF10-U+FF19]/g, (s) => String.fromCharCode(s.charCodeAt(0) - 0xFEE0))\<close>
\<close>

definition is_fullwidth :: "code_unit \<Rightarrow> bool" where
  "is_fullwidth u \<longleftrightarrow>
     (0xFF21 \<le> u \<and> u \<le> 0xFF3A) \<or> (0xFF41 \<le> u \<and> u \<le> 0xFF5A) \<or> (0xFF10 \<le> u \<and> u \<le> 0xFF19)"

definition replace_fullwidth :: "jsstring \<Rightarrow> jsstring" where
  "replace_fullwidth s = map (\<lambda>u. if is_fullwidth u then u - 0xFEE0 else u) s"

definition generateDeterministicId :: "jsstring \<Rightarrow> jsstring \<Rightarrow> jsstring" where
  "generateDeterministicId bank name =
     ascii ''live_'' @ replace_non_key (replace_fullwidth (toLowerCase (bank @ name)))"

section \<open>Card records\<close>

datatype CardCategory = ALL | CONVENIENCE | ONLINE | TRAVEL_JP_KR | GAS | GENERAL | MOBILE_PAY

record CardReward =
  reward_type :: jsstring
  reward_value :: jsstring
  cap :: "jsstring option"
  condition :: "jsstring option"
  description :: jsstring

record AnnualFee =
  fee :: jsstring
  waiveCondition :: jsstring

record CreditCard =
  card_id :: jsstring
  name :: jsstring
  bank :: jsstring
  imageUrl :: "jsstring option"
  link :: "jsstring option"
  rewards :: "(CardCategory \<times> CardReward) list"
  annualFee :: AnnualFee
  tags :: "jsstring list"
  pros :: "jsstring list option"
  cons :: "jsstring list option"
  lastUpdated :: jsstring
  isLive :: "bool option"
  verified :: "bool option"

text \<open>Truthiness of an optional boolean field: \<open>undefined\<close> and \<open>false\<close> are falsy.\<close>

definition truthy :: "bool option \<Rightarrow> bool" where
  "truthy b \<longleftrightarrow> b = Some True"

section \<open>The insertion-ordered map\<close>

text \<open>
  \<open>Map<string, CreditCard>\<close> keeps its entries in the order in which their keys were
  first set; setting a key that is present replaces the value in place. The values are
  cards where the function is read on values, and references to cards where it is read
  on a store.
\<close>

type_synonym 'v jsmap = "(jsstring \<times> 'v) list"
type_synonym cardmap = "CreditCard jsmap"

definition Map_has :: "'v jsmap \<Rightarrow> jsstring \<Rightarrow> bool" where
  "Map_has m k \<longleftrightarrow> k \<in> set (map fst m)"

definition Map_get :: "'v jsmap \<Rightarrow> jsstring \<Rightarrow> 'v option" where
  "Map_get m k = map_of m k"

fun Map_set :: "'v jsmap \<Rightarrow> jsstring \<Rightarrow> 'v \<Rightarrow> 'v jsmap" where
  "Map_set [] k v = [(k, v)]"
| "Map_set (p # ps) k v = (if fst p = k then (k, v) # ps else p # Map_set ps k v)"

definition Map_values :: "'v jsmap \<Rightarrow> 'v list" where
  "Map_values m = map snd m"

section \<open>deduplicateCards\<close>

datatype error = TypeError

definition canonical_key :: "CreditCard \<Rightarrow> jsstring" where
  "canonical_key c = replace_non_key (toLowerCase (bank c @ name c))"

text \<open>
  The body of the \<open>forEach\<close> callback, for the card \<open>c\<close>. \<open>map.get(key)!\<close> is read without a check: were
  it \<open>undefined\<close>, reading \<open>existing.isLive\<close> would raise a TypeError.
\<close>

definition dedup_step :: "CreditCard \<Rightarrow> cardmap \<Rightarrow> error + cardmap" where
  "dedup_step c m =
     (let key = canonical_key c in
      if Map_has m key then
        (case Map_get m key of
           None \<Rightarrow> Inl TypeError
         | Some existing \<Rightarrow>
             if truthy (isLive c) \<and> \<not> truthy (isLive existing) then Inr (Map_set m key c)
             else if truthy (isLive c) \<and> truthy (isLive existing) then Inr (Map_set m key c)
             else Inr m)
      else Inr (Map_set m key c))"

fun forEach_card :: "CreditCard list \<Rightarrow> cardmap \<Rightarrow> error + cardmap" where
  "forEach_card [] m = Inr m"
| "forEach_card (c # rest) m =
     (case dedup_step c m of Inl e \<Rightarrow> Inl e | Inr m' \<Rightarrow> forEach_card rest m')"

definition deduplicateCards :: "CreditCard list \<Rightarrow> error + CreditCard list" where
  "deduplicateCards cs =
     (case forEach_card cs [] of Inl e \<Rightarrow> Inl e | Inr m \<Rightarrow> Inr (Map_values m))"

section \<open>deduplicateCards on a store\<close>

text \<open>
  Whether the function changes its inputs cannot be read off a function on values. The
  same body is therefore also modelled over a store of objects, in which a change of an
  input would show: the input array and the map hold references to card objects, a card
  is read through its reference, \<open>map.set\<close> writes the map object, and \<open>new Map()\<close> and
  \<open>Array.from\<close> allocate a new object. A reference is the position of its object in the
  store. Reading through a reference that holds no object of the expected kind is the
  TypeError of the program.
\<close>

type_synonym addr = nat

datatype obj = CardObj CreditCard | ArrayObj "addr list" | MapObj "addr jsmap"

type_synonym store = "obj list"

definition lookup :: "store \<Rightarrow> addr \<Rightarrow> obj option" where
  "lookup h a = (if a < length h then Some (h ! a) else None)"

definition alloc :: "store \<Rightarrow> obj \<Rightarrow> store \<times> addr" where
  "alloc h v = (h @ [v], length h)"

definition read_card :: "store \<Rightarrow> addr \<Rightarrow> CreditCard option" where
  "read_card h a = (case lookup h a of Some (CardObj c) \<Rightarrow> Some c | _ \<Rightarrow> None)"

definition read_array :: "store \<Rightarrow> addr \<Rightarrow> addr list option" where
  "read_array h a = (case lookup h a of Some (ArrayObj rs) \<Rightarrow> Some rs | _ \<Rightarrow> None)"

definition read_map :: "store \<Rightarrow> addr \<Rightarrow> addr jsmap option" where
  "read_map h a = (case lookup h a of Some (MapObj m) \<Rightarrow> Some m | _ \<Rightarrow> None)"

text \<open>
  The callback of \<open>forEach\<close> for the card behind the reference \<open>r\<close>, with the map
  object at \<open>mp\<close>. Its only write is to the map object.
\<close>

definition dedup_step_store :: "addr \<Rightarrow> addr \<Rightarrow> store \<Rightarrow> error + store" where
  "dedup_step_store mp r h =
     (case read_card h r of
        None \<Rightarrow> Inl TypeError
      | Some c \<Rightarrow>
          (case read_map h mp of
             None \<Rightarrow> Inl TypeError
           | Some m \<Rightarrow>
               (let key = canonical_key c in
                if Map_has m key then
                  (case Map_get m key of
                     None \<Rightarrow> Inl TypeError
                   | Some existing \<Rightarrow>
                       (case read_card h existing of
                          None \<Rightarrow> Inl TypeError
                        | Some e \<Rightarrow>
                            if truthy (isLive c) \<and> \<not> truthy (isLive e)
                            then Inr (h[mp := MapObj (Map_set m key r)])
                            else if truthy (isLive c) \<and> truthy (isLive e)
                            then Inr (h[mp := MapObj (Map_set m key r)])
                            else Inr h))
                else Inr (h[mp := MapObj (Map_set m key r)]))))"

fun forEach_store :: "addr \<Rightarrow> addr list \<Rightarrow> store \<Rightarrow> error + store" where
  "forEach_store mp [] h = Inr h"
| "forEach_store mp (r # rest) h =
     (case dedup_step_store mp r h of Inl e \<Rightarrow> Inl e | Inr h' \<Rightarrow> forEach_store mp rest h')"

text \<open>
  The function on the store \<open>h\<close>, called with the reference \<open>cards_ref\<close> of the input
  array. It returns the store after the call and the reference of the new array.
\<close>

definition deduplicateCards_store :: "store \<Rightarrow> addr \<Rightarrow> error + store \<times> addr" where
  "deduplicateCards_store h cards_ref =
     (case read_array h cards_ref of
        None \<Rightarrow> Inl TypeError
      | Some refs \<Rightarrow>
          (let (h1, mp) = alloc h (MapObj []) in
           case forEach_store mp refs h1 of
             Inl e \<Rightarrow> Inl e
           | Inr h2 \<Rightarrow>
               (case read_map h2 mp of
                  None \<Rightarrow> Inl TypeError
                | Some m \<Rightarrow> Inr (alloc h2 (ArrayObj (Map_values m))))))"

abbreviation live :: "CreditCard \<Rightarrow> bool" where
  "live c \<equiv> truthy (isLive c)"

section \<open>The merge of the discovery loop\<close>

text \<open>
  The callback given to \<open>merged.filter\<close> reads and updates the set \<open>seen\<close>; the set
  is threaded through the recursion.
\<close>

fun filter_seen :: "jsstring set \<Rightarrow> CreditCard list \<Rightarrow> CreditCard list" where
  "filter_seen seen [] = []"
| "filter_seen seen (c # rest) =
     (let duplicate = card_id c \<in> seen; seen' = insert (card_id c) seen
      in if \<not> duplicate then c # filter_seen seen' rest else filter_seen seen' rest)"

text \<open>The updater \<open>prev => ...\<close> passed to \<open>setCards\<close>.\<close>

definition merge_batch :: "CreditCard list \<Rightarrow> CreditCard list \<Rightarrow> CreditCard list" where
  "merge_batch newCards prev = (let merged = newCards @ prev in filter_seen {} merged)"

section \<open>The discovery loop\<close>

text \<open>
  The state that the loop reads and writes. \<open>fetch_log\<close> is not a variable of the
  program: it records, for every call of \<open>fetchTrendingCards\<close> that the loop issues, the
  query and the number of cards in the state at that moment.
\<close>

record app_state =
  cards :: "CreditCard list"
  discoveryStarted :: bool
  discoveryStatus :: jsstring
  discoveredCount :: nat
  fetch_log :: "(jsstring \<times> nat) list"

datatype fetch_error = RATE_LIMIT

text \<open>
  \<open>runDiscovery\<close> awaits each fetch before the next iteration, so the loop is a
  recursion over the list of queries. The outcome of the network call is a parameter:
  \<open>fetch n query\<close> is what the \<open>n\<close>-th call returns (\<open>Inl\<close> when it throws, which the
  loop catches). The list of queries is built from the current date and is a parameter
  too. \<open>cards0\<close> is the variable \<open>cards\<close> of the closure: the effect has an empty
  dependency array, so the loop tests the array that the render at mount time saw,
  whereas the updater of \<open>setCards\<close> works on the current state. The delay between two
  iterations has no effect on the state.
\<close>

fun runDiscovery ::
  "(nat \<Rightarrow> jsstring \<Rightarrow> fetch_error + CreditCard list) \<Rightarrow> CreditCard list \<Rightarrow> jsstring list \<Rightarrow>
     app_state \<Rightarrow> app_state" where
  "runDiscovery fetch cards0 [] st = st\<lparr>discoveryStatus := []\<rparr>"
| "runDiscovery fetch cards0 (query # rest) st =
     (if length cards0 \<ge> 100 then st\<lparr>discoveryStatus := []\<rparr>
      else
        let st1 = st\<lparr>discoveryStatus := query,
                     fetch_log := fetch_log st @ [(query, length (cards st))]\<rparr>
        in case fetch (length (fetch_log st)) query of
             Inl e \<Rightarrow> runDiscovery fetch cards0 rest st1
           | Inr newCards \<Rightarrow>
               if length newCards > 0
               then runDiscovery fetch cards0 rest
                      (st1\<lparr>cards := merge_batch newCards (cards st1),
                           discoveredCount := discoveredCount st1 + length newCards\<rparr>)
               else runDiscovery fetch cards0 rest st1)"

text \<open>The body of the effect, and the effect run on the initial state.\<close>

definition discovery_effect ::
  "(nat \<Rightarrow> jsstring \<Rightarrow> fetch_error + CreditCard list) \<Rightarrow> jsstring list \<Rightarrow> CreditCard list \<Rightarrow>
     app_state \<Rightarrow> app_state" where
  "discovery_effect fetch queries cards0 st =
     (if discoveryStarted st \<or> length cards0 > 100 then st
      else runDiscovery fetch cards0 queries (st\<lparr>discoveryStarted := True\<rparr>))"

definition mount ::
  "(nat \<Rightarrow> jsstring \<Rightarrow> fetch_error + CreditCard list) \<Rightarrow> jsstring list \<Rightarrow> CreditCard list \<Rightarrow>
     app_state" where
  "mount fetch queries initial =
     discovery_effect fetch queries initial
       \<lparr>cards = initial, discoveryStarted = False, discoveryStatus = [], discoveredCount = 0,
        fetch_log = []\<rparr>"

section \<open>Auxiliary notions for the proofs\<close>

text \<open>One step of the scan without the error branch, which is shown to be dead.\<close>

definition step_map :: "CreditCard \<Rightarrow> cardmap \<Rightarrow> cardmap" where
  "step_map c m =
     (case map_of m (canonical_key c) of
        None \<Rightarrow> Map_set m (canonical_key c) c
      | Some e \<Rightarrow> if live c then Map_set m (canonical_key c) c else m)"

text \<open>
  The record that represents key \<open>k\<close> after a scan of \<open>cs\<close>: the last live record
  with that key, and the first record with that key when none is live.
\<close>

definition winner :: "jsstring \<Rightarrow> CreditCard list \<Rightarrow> CreditCard option" where
  "winner k cs =
     (case filter (\<lambda>c. canonical_key c = k \<and> live c) cs of
        [] \<Rightarrow> (case filter (\<lambda>c. canonical_key c = k) cs of [] \<Rightarrow> None | c # _ \<Rightarrow> Some c)
      | l # ls \<Rightarrow> Some (last (l # ls)))"

text \<open>The invariant of the map: keys are distinct and each is the key of its record.\<close>

definition keyed :: "cardmap \<Rightarrow> bool" where
  "keyed m \<longleftrightarrow> distinct (map fst m) \<and> (\<forall>(k, r) \<in> set m. k = canonical_key r)"

text \<open>
  The records that can represent their key in some order of the input are the live ones
  and, for a key without a live record, all of them. The input is free of order when no
  two different such records share a key.
\<close>

definition order_free :: "CreditCard list \<Rightarrow> bool" where
  "order_free cs \<longleftrightarrow>
     (\<forall>a \<in> set cs. \<forall>b \<in> set cs.
        canonical_key a = canonical_key b \<and>
        (live a \<and> live b \<or> (\<forall>c \<in> set cs. canonical_key c = canonical_key a \<longrightarrow> \<not> live c))
        \<longrightarrow> a = b)"


text \<open>The map of references read as a map of cards.\<close>

definition deref :: "store \<Rightarrow> addr jsmap \<Rightarrow> cardmap" where
  "deref h m = map (\<lambda>(k, a). (k, the (read_card h a))) m"


text \<open>
  The code units that contribute to a canonical key: those that \<open>replace\<close> keeps, and
  those that \<open>toLowerCase\<close> turns into one of them. All others, punctuation and spaces
  among them, leave no trace in the key.
\<close>

definition contributes :: "code_unit \<Rightarrow> bool" where
  "contributes u \<longleftrightarrow> is_key_unit u \<or> (0x41 \<le> u \<and> u \<le> 0x5A) \<or> u = 0x130 \<or> u = 0x212A"

section \<open>Example records\<close>

definition mk_card :: "string \<Rightarrow> string \<Rightarrow> string \<Rightarrow> bool option \<Rightarrow> CreditCard" where
  "mk_card i b n l =
     \<lparr>card_id = ascii i, name = ascii n, bank = ascii b, imageUrl = None, link = None,
      rewards = [], annualFee = \<lparr>fee = [], waiveCondition = []\<rparr>, tags = [],
      pros = None, cons = None, lastUpdated = [], isLive = l, verified = None\<rparr>"

definition numbered_card :: "bool option \<Rightarrow> nat \<Rightarrow> CreditCard" where
  "numbered_card l n = (mk_card ''c'' ''Bank'' ''Card'' l)\<lparr>card_id := [of_nat n]\<rparr>"

text \<open>A saved state of 99 cards, and a network that returns one new card for each query.\<close>

definition saved_cards :: "CreditCard list" where
  "saved_cards = map (numbered_card (Some False)) [0 ..< 99]"

definition fresh_fetch :: "nat \<Rightarrow> jsstring \<Rightarrow> fetch_error + CreditCard list" where
  "fresh_fetch n q = Inr [numbered_card (Some True) (99 + n)]"

definition ten_queries :: "jsstring list" where
  "ten_queries = [ascii ''q0'', ascii ''q1'', ascii ''q2'', ascii ''q3'', ascii ''q4'',
                  ascii ''q5'', ascii ''q6'', ascii ''q7'', ascii ''q8'', ascii ''q9'']"

section \<open>The scan as a fold\<close>

lemma Map_has_get: "Map_has m k \<longleftrightarrow> Map_get m k \<noteq> None"
  by (simp add: Map_has_def Map_get_def map_of_eq_None_iff)

lemma dedup_step_eq: "dedup_step c m = Inr (step_map c m)"
  by (auto simp: dedup_step_def step_map_def Let_def Map_has_get Map_get_def split: option.splits)

lemma forEach_card_eq: "forEach_card cs m = Inr (fold step_map cs m)"
  by (induction cs arbitrary: m) (simp_all add: dedup_step_eq)

lemma deduplicateCards_eq: "deduplicateCards cs = Inr (map snd (fold step_map cs []))"
  by (simp add: deduplicateCards_def forEach_card_eq Map_values_def)

lemma map_of_Map_set: "map_of (Map_set m k v) = (map_of m)(k \<mapsto> v)"
  by (induction m) (auto simp: fun_eq_iff)

lemma keys_Map_set:
  "map fst (Map_set m k v) = (if k \<in> set (map fst m) then map fst m else map fst m @ [k])"
  by (induction m) auto

lemma set_Map_set: "set (Map_set m k v) \<subseteq> insert (k, v) (set m)"
  by (induction m) auto

lemma keyed_Map_set: "keyed m \<Longrightarrow> keyed (Map_set m (canonical_key c) c)"
  unfolding keyed_def using set_Map_set [of m "canonical_key c" c]
  by (auto simp: keys_Map_set)

lemma keyed_step: "keyed m \<Longrightarrow> keyed (step_map c m)"
  by (simp add: step_map_def keyed_Map_set split: option.splits)

lemma keyed_fold: "keyed m \<Longrightarrow> keyed (fold step_map cs m)"
  by (induction cs arbitrary: m) (simp_all add: keyed_step)

lemma keyed_scan: "keyed (fold step_map cs [])"
  by (rule keyed_fold) (simp add: keyed_def)

lemma map_of_step:
  "map_of (step_map c m) k =
     (if canonical_key c = k
      then (case map_of m k of None \<Rightarrow> Some c | Some e \<Rightarrow> if live c then Some c else Some e)
      else map_of m k)"
  by (auto simp: step_map_def map_of_Map_set split: option.splits)

lemma winner_snoc:
  "winner k (cs @ [c]) =
     (if canonical_key c = k
      then (case winner k cs of None \<Rightarrow> Some c | Some e \<Rightarrow> if live c then Some c else Some e)
      else winner k cs)"
  by (auto simp: winner_def split: list.splits)

lemma map_of_scan: "map_of (fold step_map cs []) k = winner k cs"
proof (induction cs rule: rev_induct)
  case Nil
  show ?case by (simp add: winner_def)
next
  case (snoc c cs)
  then show ?case by (simp add: map_of_step winner_snoc)
qed

lemma keyset_Map_set: "fst ` set (Map_set m k v) = insert k (fst ` set m)"
  using keys_Map_set [of m k v, THEN arg_cong, of set] by (auto split: if_splits)

lemma keys_step: "fst ` set (step_map c m) = insert (canonical_key c) (fst ` set m)"
proof (cases "map_of m (canonical_key c)")
  case None
  then show ?thesis by (simp add: step_map_def keyset_Map_set)
next
  case (Some e)
  then have "canonical_key c \<in> fst ` set m"
    by (metis map_of_eq_None_iff option.distinct(1))
  with Some show ?thesis by (auto simp: step_map_def keyset_Map_set)
qed

lemma keys_fold:
  "fst ` set (fold step_map cs m) = canonical_key ` set cs \<union> fst ` set m"
  by (induction cs arbitrary: m) (auto simp: keys_step)

lemma keyed_values: "keyed m \<Longrightarrow> map canonical_key (map snd m) = map fst m"
  by (induction m) (auto simp: keyed_def)

lemma Map_set_fresh: "k \<notin> fst ` set m \<Longrightarrow> Map_set m k v = m @ [(k, v)]"
  by (induction m) auto

lemma keyed_entry: "keyed m \<Longrightarrow> x \<in> set m \<Longrightarrow> fst x = canonical_key (snd x)"
  by (auto simp: keyed_def)

lemma no_entry_of_key:
  assumes "keyed m" and "k \<notin> fst ` set m"
  shows "filter (\<lambda>x. canonical_key x = k) (map snd m) = []"
proof -
  have "canonical_key (snd x) \<noteq> k" if "x \<in> set m" for x
    using keyed_entry [OF assms(1) that] assms(2) that by force
  then show ?thesis by (auto simp: filter_empty_conv)
qed

lemma keyed_Cons: "keyed (p # ps) \<Longrightarrow> keyed ps \<and> fst p \<notin> fst ` set ps \<and> fst p = canonical_key (snd p)"
  by (auto simp: keyed_def)

lemma entry_of_key:
  "keyed m \<Longrightarrow> map_of m k = Some f \<Longrightarrow> filter (\<lambda>x. canonical_key x = k) (map snd m) = [f]"
proof (induction m)
  case Nil
  then show ?case by simp
next
  case (Cons p ps)
  from keyed_Cons [OF Cons.prems(1)]
  have kp: "keyed ps" and fresh: "fst p \<notin> fst ` set ps" and key: "fst p = canonical_key (snd p)"
    by blast+
  show ?case
  proof (cases "fst p = k")
    case True
    with Cons.prems(2) have "snd p = f" by (cases p) simp
    moreover have "filter (\<lambda>x. canonical_key x = k) (map snd ps) = []"
      using no_entry_of_key [OF kp] fresh True by simp
    ultimately show ?thesis using True key by simp
  next
    case False
    with Cons.prems(2) have "map_of ps k = Some f" by (cases p) simp
    from Cons.IH [OF kp this] False key show ?thesis by simp
  qed
qed

lemma output_entry:
  "winner k cs = Some f \<Longrightarrow>
     filter (\<lambda>x. canonical_key x = k) (map snd (fold step_map cs [])) = [f]"
  by (rule entry_of_key [OF keyed_scan]) (simp add: map_of_scan)

lemma winner_live:
  assumes "l \<in> set cs" and "live l"
  shows "\<exists>r. winner (canonical_key l) cs = Some r \<and> live r \<and> r \<in> set cs"
proof -
  let ?ls = "filter (\<lambda>c. canonical_key c = canonical_key l \<and> live c) cs"
  from assms have ne: "?ls \<noteq> []" by (auto simp: filter_empty_conv)
  then have "last ?ls \<in> set ?ls" by (rule last_in_set)
  then have "live (last ?ls) \<and> last ?ls \<in> set cs" by simp
  moreover from ne have "winner (canonical_key l) cs = Some (last ?ls)"
    by (cases ?ls) (simp_all add: winner_def)
  ultimately show ?thesis by blast
qed

lemma winner_static:
  assumes "filter (\<lambda>x. canonical_key x = k) cs = f # rest"
    and "\<forall>x \<in> set cs. canonical_key x = k \<longrightarrow> \<not> live x"
  shows "winner k cs = Some f"
proof -
  from assms(2) have "filter (\<lambda>c. canonical_key c = k \<and> live c) cs = []"
    by (auto simp: filter_empty_conv)
  with assms(1) show ?thesis by (simp add: winner_def)
qed

lemma forEach_card_snoc:
  "forEach_card (cs @ [c]) m = Inr (step_map c (fold step_map cs m))"
  by (simp add: forEach_card_eq)

lemma fold_keyed_values:
  "keyed (m0 @ m) \<Longrightarrow> fold step_map (map snd m) m0 = m0 @ m"
proof (induction m arbitrary: m0)
  case Nil
  then show ?case by simp
next
  case (Cons p ps)
  from Cons.prems have key: "fst p = canonical_key (snd p)"
    by (rule keyed_entry) simp
  from Cons.prems have "fst p \<notin> fst ` set m0"
    by (auto simp: keyed_def)
  with key have fresh: "canonical_key (snd p) \<notin> fst ` set m0"
    by simp
  then have "map_of m0 (canonical_key (snd p)) = None"
    by (simp add: map_of_eq_None_iff)
  then have "step_map (snd p) m0 = m0 @ [p]"
    using fresh key by (cases p) (simp add: step_map_def Map_set_fresh)
  moreover from Cons.prems have "keyed ((m0 @ [p]) @ ps)" by simp
  ultimately show ?case using Cons.IH [of "m0 @ [p]"] by simp
qed


lemma filter_seen_subset: "set (filter_seen seen xs) \<subseteq> set xs"
  by (induction xs arbitrary: seen) (auto simp: Let_def)

lemma filter_seen_ids: "card_id ` set (filter_seen seen xs) = card_id ` set xs - seen"
  by (induction xs arbitrary: seen) (auto simp: Let_def)

lemma filter_seen_distinct: "distinct (map card_id (filter_seen seen xs))"
  by (induction xs arbitrary: seen) (auto simp: Let_def filter_seen_ids)

lemma filter_seen_find:
  "find (\<lambda>c. card_id c = i) (filter_seen seen xs) =
     (if i \<in> seen then None else find (\<lambda>c. card_id c = i) xs)"
  by (induction xs arbitrary: seen) (auto simp: Let_def)

lemma filter_seen_id:
  "distinct (map card_id xs) \<Longrightarrow> card_id ` set xs \<inter> seen = {} \<Longrightarrow> filter_seen seen xs = xs"
  by (induction xs arbitrary: seen) (auto simp: Let_def)

lemma filter_seen_more:
  "filter_seen (seen \<union> S) xs = filter (\<lambda>c. card_id c \<notin> S) (filter_seen seen xs)"
proof (induction xs arbitrary: seen)
  case Nil
  show ?case by simp
next
  case (Cons c rest)
  have "filter_seen (insert (card_id c) (seen \<union> S)) rest =
      filter (\<lambda>c. card_id c \<notin> S) (filter_seen (insert (card_id c) seen) rest)"
    using Cons.IH [of "insert (card_id c) seen"] by simp
  then show ?case by (simp add: Let_def)
qed

lemma filter_seen_append:
  "filter_seen seen (xs @ ys) = filter_seen seen xs @ filter_seen (seen \<union> card_id ` set xs) ys"
  by (induction xs arbitrary: seen) (simp_all add: Let_def)

lemma merge_batch_split:
  "merge_batch newCards prev =
     filter_seen {} newCards @ filter (\<lambda>c. card_id c \<notin> card_id ` set newCards) (filter_seen {} prev)"
  using filter_seen_more [of "{}" "card_id ` set newCards" prev]
  by (simp add: merge_batch_def filter_seen_append)

lemma log_grows:
  "take (length (fetch_log st)) (fetch_log (runDiscovery fetch cards0 qs st)) = fetch_log st"
proof (induction qs arbitrary: st)
  case Nil
  show ?case by simp
next
  case (Cons q qs)
  let ?st1 = "st\<lparr>discoveryStatus := q, fetch_log := fetch_log st @ [(q, length (cards st))]\<rparr>"
  have step: "take (length (fetch_log st)) (fetch_log (runDiscovery fetch cards0 qs s)) = fetch_log st"
    if "fetch_log s = fetch_log st @ [(q, length (cards st))]" for s
  proof -
    have "take (length (fetch_log st)) (take (length (fetch_log s)) (fetch_log (runDiscovery fetch cards0 qs s)))
            = take (length (fetch_log st)) (fetch_log s)"
      by (simp only: Cons.IH)
    then show ?thesis using that by (simp add: min_def)
  qed
  show ?case
    by (auto simp: Let_def step split: sum.splits)
qed

lemma all_queries_issued:
  "length cards0 < 100 \<Longrightarrow>
     map fst (fetch_log (runDiscovery fetch cards0 qs st)) = map fst (fetch_log st) @ qs"
  by (induction qs arbitrary: st) (auto simp: Let_def split: sum.splits)

lemma numbered_ids_distinct:
  assumes "distinct ns" and "\<forall>n \<in> set ns. n < 65536"
  shows "distinct (map card_id (map (numbered_card l) ns))"
proof -
  have "inj_on (\<lambda>n. [of_nat n :: code_unit]) (set ns)"
  proof (rule inj_onI)
    fix a b assume a: "a \<in> set ns" and b: "b \<in> set ns"
      and eq: "[of_nat a :: code_unit] = [of_nat b]"
    from eq have "unat (of_nat a :: code_unit) = unat (of_nat b :: code_unit)" by simp
    with a b assms(2) show "a = b" by (simp add: unat_of_nat)
  qed
  with assms(1) have "distinct (map (\<lambda>n. [of_nat n :: code_unit]) ns)"
    by (simp add: distinct_map)
  moreover have "map card_id (map (numbered_card l) ns) = map (\<lambda>n. [of_nat n :: code_unit]) ns"
    by (simp add: numbered_card_def)
  ultimately show ?thesis by (simp only:)
qed

lemma first_merge:
  "merge_batch [numbered_card (Some True) 99] saved_cards = numbered_card (Some True) 99 # saved_cards"
proof -
  have "distinct (map card_id (map (numbered_card (Some True)) ([99] @ [0 ..< 99])))"
    by (rule numbered_ids_distinct) auto
  moreover have "map card_id (map (numbered_card (Some True)) ([99] @ [0 ..< 99])) =
      map card_id ([numbered_card (Some True) 99] @ saved_cards)"
    by (simp add: saved_cards_def numbered_card_def)
  ultimately have "distinct (map card_id ([numbered_card (Some True) 99] @ saved_cards))"
    by (simp only:)
  then have "filter_seen {} ([numbered_card (Some True) 99] @ saved_cards) =
      [numbered_card (Some True) 99] @ saved_cards"
    by (intro filter_seen_id) simp_all
  then show ?thesis by (simp add: merge_batch_def)
qed


section \<open>The output as a function of the input\<close>

lemma winner_char:
  assumes "winner k cs = Some r"
  shows "r \<in> set cs \<and> canonical_key r = k \<and>
         (live r \<or> (\<forall>c \<in> set cs. canonical_key c = k \<longrightarrow> \<not> live c))"
proof (cases "filter (\<lambda>c. canonical_key c = k \<and> live c) cs")
  case Nil
  then have none: "\<forall>c \<in> set cs. canonical_key c = k \<longrightarrow> \<not> live c"
    by (auto simp: filter_empty_conv)
  from assms Nil obtain rest where "filter (\<lambda>c. canonical_key c = k) cs = r # rest"
    by (auto simp: winner_def split: list.splits)
  then have "r \<in> set (filter (\<lambda>c. canonical_key c = k) cs)" by simp
  with none show ?thesis by simp
next
  case (Cons l ls)
  with assms have "r = last (filter (\<lambda>c. canonical_key c = k \<and> live c) cs)"
    by (simp add: winner_def)
  moreover from Cons have "last (filter (\<lambda>c. canonical_key c = k \<and> live c) cs)
      \<in> set (filter (\<lambda>c. canonical_key c = k \<and> live c) cs)"
    by (intro last_in_set) simp
  ultimately show ?thesis by simp
qed

lemma winner_exists: "c \<in> set cs \<Longrightarrow> \<exists>r. winner (canonical_key c) cs = Some r"
  by (auto simp: winner_def filter_empty_conv split: list.splits)

lemma output_set: "set (map snd (fold step_map cs [])) = {r. \<exists>k. winner k cs = Some r}"
proof -
  have d: "distinct (map fst (fold step_map cs []))"
    using keyed_scan [of cs] by (simp add: keyed_def)
  have "(k, r) \<in> set (fold step_map cs []) \<longleftrightarrow> winner k cs = Some r" for k r
    using map_of_eq_Some_iff [OF d, of k r] by (simp add: map_of_scan)
  then show ?thesis by force
qed

lemma output_subset: "set (map snd (fold step_map cs [])) \<subseteq> set cs"
  using winner_char by (auto simp only: output_set)

lemma winner_order_free:
  assumes "order_free cs" and "r \<in> set cs"
    and "live r \<or> (\<forall>c \<in> set cs. canonical_key c = canonical_key r \<longrightarrow> \<not> live c)"
  shows "winner (canonical_key r) cs = Some r"
proof -
  from winner_exists [OF assms(2)] obtain r' where w: "winner (canonical_key r) cs = Some r'"
    by blast
  from winner_char [OF w] have in': "r' \<in> set cs" and key': "canonical_key r' = canonical_key r"
    and l': "live r' \<or> (\<forall>c \<in> set cs. canonical_key c = canonical_key r \<longrightarrow> \<not> live c)"
    by blast+
  from assms(2,3) in' key' l'
  have "live r' \<and> live r \<or> (\<forall>c \<in> set cs. canonical_key c = canonical_key r' \<longrightarrow> \<not> live c)"
    by metis
  with assms(1,2) in' key' have "r' = r" unfolding order_free_def by blast
  with w show ?thesis by simp
qed

lemma output_set_order_free:
  assumes "order_free cs"
  shows "set (map snd (fold step_map cs [])) =
     {r \<in> set cs. live r \<or> (\<forall>c \<in> set cs. canonical_key c = canonical_key r \<longrightarrow> \<not> live c)}"
    (is "?L = ?R")
proof
  show "?L \<subseteq> ?R" using winner_char by (auto simp only: output_set)
  show "?R \<subseteq> ?L"
  proof
    fix r assume "r \<in> ?R"
    then have "winner (canonical_key r) cs = Some r"
      using winner_order_free [OF assms, of r] by blast
    then show "r \<in> ?L" unfolding output_set by blast
  qed
qed

lemma output_entry_list:
  "filter (\<lambda>x. canonical_key x = k) (map snd (fold step_map cs [])) =
     (case winner k cs of None \<Rightarrow> [] | Some r \<Rightarrow> [r])"
proof (cases "winner k cs")
  case None
  then have "map_of (fold step_map cs []) k = None" by (simp add: map_of_scan)
  then have "k \<notin> fst ` set (fold step_map cs [])" by (simp add: map_of_eq_None_iff)
  from no_entry_of_key [OF keyed_scan this] None show ?thesis by simp
next
  case (Some r)
  then show ?thesis by (simp add: output_entry)
qed

lemma winner_cases:
  "(case winner k cs of None \<Rightarrow> [] | Some r \<Rightarrow> [r]) =
     (case filter (\<lambda>c. canonical_key c = k \<and> live c) cs of
        [] \<Rightarrow> (case filter (\<lambda>c. canonical_key c = k) cs of [] \<Rightarrow> [] | c # _ \<Rightarrow> [c])
      | l # ls \<Rightarrow> [last (l # ls)])"
  by (simp add: winner_def split: list.splits)

lemma moved_last:
  assumes "a \<in> set cs" and "live a"
  shows "mset (remove1 a cs @ [a]) = mset cs"
    and "winner (canonical_key a) (remove1 a cs @ [a]) = Some a"
  using assms by (simp_all add: winner_snoc split: option.splits)

lemma moved_first:
  assumes "a \<in> set cs" and "\<forall>c \<in> set cs. canonical_key c = canonical_key a \<longrightarrow> \<not> live c"
  shows "mset (a # remove1 a cs) = mset cs"
    and "winner (canonical_key a) (a # remove1 a cs) = Some a"
proof -
  show "mset (a # remove1 a cs) = mset cs" using assms(1) by simp
  have "\<forall>x \<in> set (a # remove1 a cs). canonical_key x = canonical_key a \<longrightarrow> \<not> live x"
    using assms set_remove1_subset [of a cs] by auto
  moreover have "filter (\<lambda>x. canonical_key x = canonical_key a) (a # remove1 a cs) =
      a # filter (\<lambda>x. canonical_key x = canonical_key a) (remove1 a cs)"
    by simp
  ultimately show "winner (canonical_key a) (a # remove1 a cs) = Some a"
    by (rule winner_static [rotated])
qed

lemma same_outputs_order_free:
  assumes all: "\<forall>cs'. mset cs' = mset cs \<longrightarrow>
      set (map snd (fold step_map cs' [])) = set (map snd (fold step_map cs []))"
  shows "order_free cs"
  unfolding order_free_def
proof (intro ballI impI)
  fix a b
  assume a: "a \<in> set cs" and b: "b \<in> set cs"
    and h: "canonical_key a = canonical_key b \<and>
        (live a \<and> live b \<or> (\<forall>c \<in> set cs. canonical_key c = canonical_key a \<longrightarrow> \<not> live c))"
  from h have key: "canonical_key a = canonical_key b" by (rule conjunct1)
  have "\<exists>xs ys. mset xs = mset cs \<and> mset ys = mset cs \<and>
      winner (canonical_key a) xs = Some a \<and> winner (canonical_key b) ys = Some b"
  proof (cases "live a \<and> live b")
    case True
    then have la: "live a" and lb: "live b" by simp_all
    from moved_last [OF a la] moved_last [OF b lb] show ?thesis
      by - (rule exI [of _ "remove1 a cs @ [a]"], rule exI [of _ "remove1 b cs @ [b]"], simp)
  next
    case False
    with h have na: "\<forall>c \<in> set cs. canonical_key c = canonical_key a \<longrightarrow> \<not> live c" by blast
    with key have nb: "\<forall>c \<in> set cs. canonical_key c = canonical_key b \<longrightarrow> \<not> live c" by simp
    from moved_first [OF a na] moved_first [OF b nb] show ?thesis
      by - (rule exI [of _ "a # remove1 a cs"], rule exI [of _ "b # remove1 b cs"], simp)
  qed
  then obtain xs ys where xs: "mset xs = mset cs" and ys: "mset ys = mset cs"
    and wa: "winner (canonical_key a) xs = Some a" and wb: "winner (canonical_key b) ys = Some b"
    by blast
  from all [rule_format, OF xs] all [rule_format, OF ys]
  have eq: "set (map snd (fold step_map xs [])) = set (map snd (fold step_map ys []))"
    by (simp only:)
  from wa have "a \<in> set (map snd (fold step_map xs []))" unfolding output_set by blast
  with eq have "a \<in> set (map snd (fold step_map ys []))" by (simp only:)
  with key have "a \<in> set (filter (\<lambda>x. canonical_key x = canonical_key b) (map snd (fold step_map ys [])))"
    by simp
  then have "a \<in> set [b]" by (simp only: output_entry [OF wb])
  then show "a = b" by simp
qed

lemma output_keys_liveness:
  "(\<lambda>r. (canonical_key r, live r)) ` set (map snd (fold step_map cs [])) =
   (\<lambda>c. (canonical_key c, \<exists>c' \<in> set cs. canonical_key c' = canonical_key c \<and> live c')) ` set cs"
    (is "?L = ?R")
proof
  show "?L \<subseteq> ?R"
  proof
    fix p assume "p \<in> ?L"
    then obtain r k where w: "winner k cs = Some r" and p: "p = (canonical_key r, live r)"
      unfolding output_set by blast
    from winner_char [OF w] have "r \<in> set cs"
      and "live r \<longleftrightarrow> (\<exists>c' \<in> set cs. canonical_key c' = canonical_key r \<and> live c')"
      by blast+
    with p show "p \<in> ?R" by (auto simp: image_iff)
  qed
  show "?R \<subseteq> ?L"
  proof
    fix p assume "p \<in> ?R"
    then obtain c where c: "c \<in> set cs"
      and p: "p = (canonical_key c, \<exists>c' \<in> set cs. canonical_key c' = canonical_key c \<and> live c')"
      by blast
    from winner_exists [OF c] obtain r where w: "winner (canonical_key c) cs = Some r" by blast
    from winner_char [OF w] have key: "canonical_key r = canonical_key c" and rin: "r \<in> set cs"
      and l: "live r \<or> (\<forall>c' \<in> set cs. canonical_key c' = canonical_key c \<longrightarrow> \<not> live c')"
      by blast+
    from key rin l have "live r \<longleftrightarrow> (\<exists>c' \<in> set cs. canonical_key c' = canonical_key c \<and> live c')"
      by metis
    with p key have "p = (canonical_key r, live r)" by simp
    moreover from w have "r \<in> set (map snd (fold step_map cs []))" unfolding output_set by blast
    ultimately show "p \<in> ?L" by blast
  qed
qed


section \<open>Evaluation on the example records\<close>

lemma mk_card_sel [simp]:
  "card_id (mk_card i b n l) = ascii i" "bank (mk_card i b n l) = ascii b"
  "name (mk_card i b n l) = ascii n" "isLive (mk_card i b n l) = l"
  by (simp_all add: mk_card_def)

lemma key_Foo_J_Card [simp]: "canonical_key (mk_card i ''Foo'' ''J Card'' l) = ascii ''foojcard''"
  by (simp add: canonical_key_def ascii_def toLowerCase_def lower_unit_def replace_non_key_def
      is_key_unit_def)

lemma differ_by_id: "card_id x \<noteq> card_id y \<Longrightarrow> x \<noteq> y"
  by auto

lemma dedup_single: "deduplicateCards [c] = Inr [c]"
  by (simp add: deduplicateCards_eq step_map_def)

lemma dedup_pair_same_key:
  "canonical_key a = canonical_key b \<Longrightarrow> deduplicateCards [a, b] = Inr [if live b then b else a]"
  by (simp add: deduplicateCards_eq step_map_def)


section \<open>The canonical key\<close>

lemma fullwidth_lower:
  fixes u :: code_unit
  assumes "0xFF21 \<le> u" and "u \<le> 0xFF3A"
  shows "0xFF41 \<le> u + 0x20 \<and> u + 0x20 \<le> 0xFF5A"
proof -
  from assms have "65313 \<le> unat u" and "unat u \<le> 65338"
    by (simp_all add: word_le_nat_alt)
  then have "unat (u + 0x20) = unat u + 32"
    by (simp add: unat_word_ariths)
  with \<open>65313 \<le> unat u\<close> \<open>unat u \<le> 65338\<close> show ?thesis
    by (simp add: word_le_nat_alt)
qed

lemma no_trace: "\<not> contributes u \<Longrightarrow> filter is_key_unit (lower_unit u) = []"
proof (cases "0xFF21 \<le> u \<and> u \<le> 0xFF3A")
  case True
  then have "0xFF41 \<le> u + 0x20" by (simp add: fullwidth_lower)
  then have "\<not> is_key_unit (u + 0x20)"
    by (auto simp: is_key_unit_def word_le_nat_alt)
  with True show ?thesis by (simp add: lower_unit_def)
next
  case False
  assume "\<not> contributes u"
  with False show ?thesis
    by (auto simp: contributes_def lower_unit_def is_key_unit_def)
qed

lemma toLowerCase_append: "toLowerCase (s @ t) = toLowerCase s @ toLowerCase t"
  by (simp add: toLowerCase_def)

lemma key_of_contributing:
  "replace_non_key (toLowerCase s) = replace_non_key (toLowerCase (filter contributes s))"
  by (induction s) (simp_all add: replace_non_key_def toLowerCase_def no_trace)

lemma key_units: "u \<in> set (replace_non_key s) \<Longrightarrow> is_key_unit u"
  by (simp add: replace_non_key_def)

lemma key_Foo_Bar: "replace_non_key (toLowerCase (ascii ''Foo-Bar'')) = ascii ''foobar''"
  "replace_non_key (toLowerCase (ascii ''FooBar'')) = ascii ''foobar''"
  by (simp_all add: ascii_def toLowerCase_def lower_unit_def replace_non_key_def is_key_unit_def)


lemma ascii_lower:
  fixes u :: code_unit
  assumes "0x41 \<le> u" and "u \<le> 0x5A"
  shows "0x61 \<le> u + 0x20 \<and> u + 0x20 \<le> 0x7A"
proof -
  from assms have "65 \<le> unat u" and "unat u \<le> 90"
    by (simp_all add: word_le_nat_alt)
  then have "unat (u + 0x20) = unat u + 32"
    by (simp add: unat_word_ariths)
  with \<open>65 \<le> unat u\<close> \<open>unat u \<le> 90\<close> show ?thesis
    by (simp add: word_le_nat_alt)
qed

lemma lower_unit_not_fullwidth:
  assumes "\<not> is_fullwidth u" and "v \<in> set (lower_unit u)"
  shows "\<not> is_fullwidth v"
proof (cases "0x41 \<le> u \<and> u \<le> 0x5A")
  case True
  with assms(2) have v: "v = u + 0x20" by (simp add: lower_unit_def)
  from True have "u + 0x20 \<le> 0x7A" by (simp add: ascii_lower)
  then have "\<not> 0xFF10 \<le> u + 0x20" by (simp add: word_le_nat_alt)
  then have "\<not> is_fullwidth (u + 0x20)"
    by (auto simp: is_fullwidth_def word_le_nat_alt)
  with v show ?thesis by simp
next
  case False
  from assms(1) have "\<not> (0xFF21 \<le> u \<and> u \<le> 0xFF3A)" by (simp add: is_fullwidth_def)
  with False assms show ?thesis
    by (auto simp: lower_unit_def is_fullwidth_def split: if_splits)
qed

lemma replace_fullwidth_id: "\<forall>u \<in> set s. \<not> is_fullwidth u \<Longrightarrow> replace_fullwidth s = s"
  by (simp add: replace_fullwidth_def map_idI)

lemma generateDeterministicId_key:
  assumes "\<forall>u \<in> set (bank c @ name c). \<not> is_fullwidth u"
  shows "generateDeterministicId (bank c) (name c) = ascii ''live_'' @ canonical_key c"
proof -
  have "\<forall>v \<in> set (toLowerCase (bank c @ name c)). \<not> is_fullwidth v"
    using assms lower_unit_not_fullwidth by (fastforce simp: toLowerCase_def)
  then show ?thesis
    by (simp only: generateDeterministicId_def canonical_key_def replace_fullwidth_id)
qed

section \<open>The merge by id\<close>

lemma find_app:
  "find P (xs @ ys) = (case find P xs of Some x \<Rightarrow> Some x | None \<Rightarrow> find P ys)"
  by (induction xs) simp_all

lemma merge_batch_find:
  "find (\<lambda>c. card_id c = i) (merge_batch newCards prev) =
     (case find (\<lambda>c. card_id c = i) newCards of
        Some x \<Rightarrow> Some x
      | None \<Rightarrow> find (\<lambda>c. card_id c = i) prev)"
  by (simp add: merge_batch_def filter_seen_find find_app)

lemma merge_batch_distinct_ids:
  assumes "distinct (map card_id newCards)" and "distinct (map card_id prev)"
  shows "merge_batch newCards prev =
     newCards @ filter (\<lambda>c. card_id c \<notin> card_id ` set newCards) prev"
proof -
  from assms have "filter_seen {} newCards = newCards" and "filter_seen {} prev = prev"
    by (simp_all add: filter_seen_id)
  then show ?thesis by (simp add: merge_batch_split)
qed

lemma filter_seen_snoc:
  "filter_seen {} (xs @ [x]) =
     filter_seen {} xs @ (if card_id x \<in> card_id ` set xs then [] else [x])"
  by (simp add: filter_seen_append Let_def)

lemma first_occurrences_snoc:
  "map ((!) (xs @ [x]))
     (filter (\<lambda>i. card_id ((xs @ [x]) ! i) \<notin> card_id ` set (take i (xs @ [x])))
        [0 ..< length (xs @ [x])]) =
   map ((!) xs) (filter (\<lambda>i. card_id (xs ! i) \<notin> card_id ` set (take i xs)) [0 ..< length xs])
     @ (if card_id x \<in> card_id ` set xs then [] else [x])"
proof -
  have f: "filter (\<lambda>i. card_id ((xs @ [x]) ! i) \<notin> card_id ` set (take i (xs @ [x]))) [0 ..< length xs]
      = filter (\<lambda>i. card_id (xs ! i) \<notin> card_id ` set (take i xs)) [0 ..< length xs]"
    by (rule filter_cong) (simp_all add: nth_append)
  have m: "map ((!) (xs @ [x])) (filter (\<lambda>i. card_id (xs ! i) \<notin> card_id ` set (take i xs)) [0 ..< length xs])
      = map ((!) xs) (filter (\<lambda>i. card_id (xs ! i) \<notin> card_id ` set (take i xs)) [0 ..< length xs])"
    by (rule map_cong) (simp_all add: nth_append)
  have s: "[0 ..< length (xs @ [x])] = [0 ..< length xs] @ [length xs]" by simp
  show ?thesis by (simp only: s filter_append map_append f m) simp
qed

lemma filter_seen_first_occurrences:
  "filter_seen {} xs =
     map ((!) xs) (filter (\<lambda>i. card_id (xs ! i) \<notin> card_id ` set (take i xs)) [0 ..< length xs])"
proof (induction xs rule: rev_induct)
  case Nil
  show ?case by simp
next
  case (snoc x xs)
  then show ?case by (simp only: filter_seen_snoc first_occurrences_snoc)
qed

lemma merge_batch_first_occurrences:
  "merge_batch newCards prev =
     map ((!) (newCards @ prev))
       (filter (\<lambda>i. card_id ((newCards @ prev) ! i) \<notin> card_id ` set (take i (newCards @ prev)))
          [0 ..< length (newCards @ prev)])"
  unfolding merge_batch_def Let_def by (rule filter_seen_first_occurrences)

lemma differ_by_name: "name x \<noteq> name y \<Longrightarrow> x \<noteq> y"
  by auto


section \<open>The function on a store\<close>

lemma read_card_less: "read_card h a = Some c \<Longrightarrow> a < length h"
  by (auto simp: read_card_def lookup_def split: if_splits)

lemma read_card_append: "read_card h a = Some c \<Longrightarrow> read_card (h @ xs) a = Some c"
  by (auto simp: read_card_def lookup_def nth_append split: if_splits)

lemma read_array_append: "read_array h a = Some rs \<Longrightarrow> read_array (h @ xs) a = Some rs"
  by (auto simp: read_array_def lookup_def nth_append split: if_splits)

lemma read_map_last: "read_map (h @ [MapObj m]) (length h) = Some m"
  by (simp add: read_map_def lookup_def)

lemma read_map_mid: "read_map (h @ [MapObj m, x]) (length h) = Some m"
  by (simp add: read_map_def lookup_def nth_append)

lemma read_array_last: "read_array (h @ [ArrayObj rs]) (length h) = Some rs"
  by (simp add: read_array_def lookup_def)

lemma deref_Map_set:
  "deref h (Map_set m k a) = Map_set (deref h m) k (the (read_card h a))"
  by (induction m) (auto simp: deref_def)

lemma deref_map_of: "map_of (deref h m) k = map_option (\<lambda>a. the (read_card h a)) (map_of m k)"
  by (induction m) (auto simp: deref_def)

lemma deref_has: "Map_has (deref h m) k = Map_has m k"
  by (simp add: Map_has_get Map_get_def deref_map_of)

lemma dedup_step_store_sim:
  assumes rc: "read_card h r = Some c"
    and valid: "\<forall>p \<in> set m. read_card h (snd p) \<noteq> None"
  shows "\<exists>m'. dedup_step_store (length h) r (h @ [MapObj m]) = Inr (h @ [MapObj m']) \<and>
           deref h m' = step_map c (deref h m) \<and> snd ` set m' \<subseteq> insert r (snd ` set m)"
proof (cases "map_of m (canonical_key c)")
  case None
  then have "\<not> Map_has m (canonical_key c)" by (simp add: Map_has_get Map_get_def)
  with None rc show ?thesis
    using set_Map_set [of m "canonical_key c" r]
    by (intro exI [of _ "Map_set m (canonical_key c) r"])
      (auto simp: dedup_step_store_def read_card_append read_map_last Let_def step_map_def
        deref_map_of deref_Map_set)
next
  case (Some ex)
  then have has: "Map_has m (canonical_key c)" by (simp add: Map_has_get Map_get_def)
  from Some have "(canonical_key c, ex) \<in> set m" by (rule map_of_SomeD)
  with valid obtain e where e: "read_card h ex = Some e" by force
  show ?thesis
  proof (cases "truthy (isLive c)")
    case True
    with Some has rc e show ?thesis
      using set_Map_set [of m "canonical_key c" r]
      by (intro exI [of _ "Map_set m (canonical_key c) r"])
        (auto simp: dedup_step_store_def read_card_append read_map_last Let_def step_map_def
          deref_map_of deref_Map_set Map_get_def)
  next
    case False
    with Some has rc e show ?thesis
      by (intro exI [of _ m])
        (auto simp: dedup_step_store_def read_card_append read_map_last Let_def step_map_def
          deref_map_of Map_get_def)
  qed
qed

lemma forEach_store_sim:
  assumes "map (read_card h) refs = map Some cs"
    and "\<forall>p \<in> set m. read_card h (snd p) \<noteq> None"
  shows "\<exists>m'. forEach_store (length h) refs (h @ [MapObj m]) = Inr (h @ [MapObj m']) \<and>
           deref h m' = fold step_map cs (deref h m) \<and> snd ` set m' \<subseteq> set refs \<union> snd ` set m"
  using assms
proof (induction refs arbitrary: cs m)
  case Nil
  then show ?case by simp
next
  case (Cons r rest)
  from Cons.prems(1) obtain c cs' where cs: "cs = c # cs'" and rc: "read_card h r = Some c"
    and rest: "map (read_card h) rest = map Some cs'"
    by (cases cs) auto
  from dedup_step_store_sim [OF rc Cons.prems(2)] obtain m1
    where step: "dedup_step_store (length h) r (h @ [MapObj m]) = Inr (h @ [MapObj m1])"
      and d1: "deref h m1 = step_map c (deref h m)"
      and s1: "snd ` set m1 \<subseteq> insert r (snd ` set m)"
    by blast
  have valid1: "\<forall>p \<in> set m1. read_card h (snd p) \<noteq> None"
  proof
    fix p assume "p \<in> set m1"
    with s1 have "snd p = r \<or> snd p \<in> snd ` set m" by blast
    with rc Cons.prems(2) show "read_card h (snd p) \<noteq> None" by auto
  qed
  from Cons.IH [OF rest valid1] obtain m'
    where run: "forEach_store (length h) rest (h @ [MapObj m1]) = Inr (h @ [MapObj m'])"
      and d': "deref h m' = fold step_map cs' (deref h m1)"
      and s': "snd ` set m' \<subseteq> set rest \<union> snd ` set m1"
    by blast
  from s1 s' have "snd ` set m' \<subseteq> insert r (set rest) \<union> snd ` set m" by blast
  then have "snd ` set m' \<subseteq> set (r # rest) \<union> snd ` set m" by simp
  with step run d1 d' cs show ?case by simp
qed

lemma deduplicateCards_store_sim:
  assumes arr: "read_array h cards_ref = Some refs"
    and cards: "map (read_card h) refs = map Some cs"
  shows "\<exists>m'. deduplicateCards_store h cards_ref =
             Inr (h @ [MapObj m', ArrayObj (map snd m')], Suc (length h)) \<and>
           deref h m' = fold step_map cs [] \<and> snd ` set m' \<subseteq> set refs"
proof -
  from forEach_store_sim [OF cards, of "[]"] obtain m'
    where run: "forEach_store (length h) refs (h @ [MapObj []]) = Inr (h @ [MapObj m'])"
      and d: "deref h m' = fold step_map cs []" and s: "snd ` set m' \<subseteq> set refs"
    by (auto simp: deref_def)
  from arr run have "deduplicateCards_store h cards_ref =
      Inr (h @ [MapObj m', ArrayObj (map snd m')], Suc (length h))"
    by (simp add: deduplicateCards_store_def alloc_def read_map_last Map_values_def)
  with d s show ?thesis by blast
qed

lemma refs_valid:
  assumes "map (read_card h) refs = map Some cs" and "a \<in> set refs"
  shows "\<exists>c. read_card h a = Some c"
proof -
  from assms(2) have "read_card h a \<in> set (map (read_card h) refs)" by simp
  with assms(1) have "read_card h a \<in> set (map Some cs)" by (simp only:)
  then show ?thesis by auto
qed

lemma deduplicateCards_store_frame:
  assumes arr: "read_array h cards_ref = Some refs"
    and cards: "map (read_card h) refs = map Some cs"
  shows "\<exists>h' res outs out. deduplicateCards_store h cards_ref = Inr (h', res) \<and>
      take (length h) h' = h \<and>
      read_array h' cards_ref = Some refs \<and> map (read_card h') refs = map Some cs \<and>
      length h \<le> res \<and> read_array h' res = Some outs \<and> set outs \<subseteq> set refs \<and>
      deduplicateCards cs = Inr out \<and> map (read_card h') outs = map Some out"
proof -
  from deduplicateCards_store_sim [OF arr cards] obtain m'
    where run: "deduplicateCards_store h cards_ref =
        Inr (h @ [MapObj m', ArrayObj (map snd m')], Suc (length h))"
      and d: "deref h m' = fold step_map cs []" and s: "snd ` set m' \<subseteq> set refs"
    by blast
  let ?h' = "h @ [MapObj m', ArrayObj (map snd m')]"
  have keep: "read_card ?h' a = read_card h a" if "a \<in> set refs" for a
    using refs_valid [OF cards that] by (auto simp: read_card_append)
  have "map (read_card ?h') refs = map (read_card h) refs"
    by (rule map_cong) (simp_all add: keep)
  with cards have inputs: "map (read_card ?h') refs = map Some cs" by simp
  have "map snd (fold step_map cs []) = map (\<lambda>a. the (read_card h a)) (map snd m')"
    unfolding d [symmetric] by (simp add: deref_def case_prod_beta)
  moreover have "map (read_card ?h') (map snd m') =
      map Some (map (\<lambda>a. the (read_card h a)) (map snd m'))"
  proof -
    have "read_card ?h' (snd p) = Some (the (read_card h (snd p)))" if "p \<in> set m'" for p
    proof -
      from that s have "snd p \<in> set refs" by blast
      from keep [OF this] refs_valid [OF cards this] show ?thesis by auto
    qed
    then show ?thesis by simp
  qed
  ultimately have outs: "map (read_card ?h') (map snd m') = map Some (map snd (fold step_map cs []))"
    by simp
  have res: "read_array ?h' (Suc (length h)) = Some (map snd m')"
    by (simp add: read_array_def lookup_def nth_append)
  from s have sub: "set (map snd m') \<subseteq> set refs" by simp
  from run inputs outs res sub read_array_append [OF arr, of "[MapObj m', ArrayObj (map snd m')]"]
  show ?thesis by (simp add: deduplicateCards_eq)
qed


section \<open>Claims\<close>

lemmas eval_defs = mk_card_def ascii_def canonical_key_def toLowerCase_def lower_unit_def
  replace_non_key_def is_key_unit_def Map_has_def Map_get_def Map_values_def truthy_def
  dedup_step_def deduplicateCards_def Let_def

text \<open>
  Claim C1. The scan starts from the empty map and handles one record after the other.
  With \<open>m\<close> the map after the records \<open>cs\<close>, the next record \<open>c\<close> is stored
  when its key is absent from \<open>m\<close>; when the key holds \<open>e\<close>, \<open>c\<close> replaces \<open>e\<close>
  if \<open>c\<close> is live and \<open>e\<close> is not, and also if both are live; if \<open>c\<close> is static
  and \<open>e\<close> is live the map stays as it is. Storing under a key changes the lookup of
  that key only. The result of \<open>deduplicateCards\<close> is the list of values of the map.
\<close>

theorem scan_rules:
  "forEach_card [] [] = Inr [] \<and>
   (\<exists>m. forEach_card cs [] = Inr m \<and> deduplicateCards cs = Inr (Map_values m) \<and>
     (case Map_get m (canonical_key c) of
        None \<Rightarrow> forEach_card (cs @ [c]) [] = Inr (Map_set m (canonical_key c) c)
      | Some e \<Rightarrow>
          (live c \<and> \<not> live e \<longrightarrow>
             forEach_card (cs @ [c]) [] = Inr (Map_set m (canonical_key c) c)) \<and>
          (live c \<and> live e \<longrightarrow>
             forEach_card (cs @ [c]) [] = Inr (Map_set m (canonical_key c) c)) \<and>
          (\<not> live c \<and> live e \<longrightarrow> forEach_card (cs @ [c]) [] = Inr m))) \<and>
   Map_get (Map_set m0 k v) k' = (if k' = k then Some v else Map_get m0 k')"
  by (auto simp: forEach_card_snoc forEach_card_eq deduplicateCards_eq Map_values_def
      Map_get_def step_map_def map_of_Map_set split: option.splits)

theorem scan_rules_witness:
  "forEach_card ([mk_card ''c1'' ''Foo'' ''J Card'' (Some False)] @
                 [mk_card ''c2'' ''Foo'' ''J Card'' (Some True)]) [] =
     Inr [(ascii ''foojcard'', mk_card ''c2'' ''Foo'' ''J Card'' (Some True))]"
  using scan_rules [of "[mk_card ''c1'' ''Foo'' ''J Card'' (Some False)]"
      "mk_card ''c2'' ''Foo'' ''J Card'' (Some True)"]
  by (simp add: eval_defs)

text \<open>
  Claim C4. The loop tests the length of the array captured at mount time, not the
  current state. From a saved state of 99 cards and a network that returns one new card
  per query, the second query is issued from a state of 100 cards, and all ten queries
  are issued, in the order of the list.
\<close>

theorem discovery_ignores_threshold:
  "length saved_cards = 99 \<and>
   take 2 (fetch_log (mount fresh_fetch ten_queries saved_cards)) =
     [(ascii ''q0'', 99), (ascii ''q1'', 100)] \<and>
   map fst (fetch_log (mount fresh_fetch ten_queries saved_cards)) = ten_queries"
proof -
  have len: "length saved_cards = 99" by (simp add: saved_cards_def)
  let ?st0 = "\<lparr>cards = saved_cards, discoveryStarted = True, discoveryStatus = [],
               discoveredCount = 0, fetch_log = []\<rparr>"
  let ?st2 = "\<lparr>cards = merge_batch [numbered_card (Some True) 100]
                         (numbered_card (Some True) 99 # saved_cards),
               discoveryStarted = True, discoveryStatus = ascii ''q1'', discoveredCount = Suc (Suc 0),
               fetch_log = [(ascii ''q0'', 99), (ascii ''q1'', 100)]\<rparr>"
  have m: "mount fresh_fetch ten_queries saved_cards =
      runDiscovery fresh_fetch saved_cards ten_queries ?st0"
    by (simp add: mount_def discovery_effect_def len)
  obtain rest where tq: "ten_queries = ascii ''q0'' # ascii ''q1'' # rest"
    by (simp add: ten_queries_def)
  have "runDiscovery fresh_fetch saved_cards ten_queries ?st0 =
      runDiscovery fresh_fetch saved_cards rest ?st2"
    by (simp add: tq len Let_def fresh_fetch_def first_merge)
  with log_grows [of ?st2 fresh_fetch saved_cards rest]
  have "take 2 (fetch_log (runDiscovery fresh_fetch saved_cards ten_queries ?st0)) =
      [(ascii ''q0'', 99), (ascii ''q1'', 100)]"
    by (simp add: numeral_2_eq_2)
  moreover have "map fst (fetch_log (runDiscovery fresh_fetch saved_cards ten_queries ?st0)) =
      ten_queries"
    using all_queries_issued [of saved_cards fresh_fetch ten_queries ?st0] len by simp
  ultimately show ?thesis using m len by simp
qed

text \<open>
  Claim C2. When a live record \<open>l\<close> occurs in the input, then for every order \<open>cs'\<close> of
  the input the output has exactly one entry with the key of \<open>l\<close>, and it is live; this
  covers every key that has both a live and a static record. A step that meets a live
  stored record and a static incoming record leaves the map as it is. The instance: a
  static record of bank "Foo" and name "J Card" followed by a live one yields the live one.
\<close>

theorem live_beats_static:
  "(l \<in> set cs \<and> live l \<and> mset cs' = mset cs \<longrightarrow>
      (\<exists>out r. deduplicateCards cs' = Inr out \<and>
         filter (\<lambda>x. canonical_key x = canonical_key l) out = [r] \<and> live r)) \<and>
   (Map_get m (canonical_key c) = Some e \<and> live e \<and> \<not> live c \<longrightarrow> dedup_step c m = Inr m) \<and>
   (bank a = ascii ''Foo'' \<and> name a = ascii ''J Card'' \<and> isLive a = Some False \<and>
    bank b = ascii ''Foo'' \<and> name b = ascii ''J Card'' \<and> isLive b = Some True \<longrightarrow>
      deduplicateCards [a, b] = Inr [b])"
proof (intro conjI impI)
  assume h: "l \<in> set cs \<and> live l \<and> mset cs' = mset cs"
  then have "set cs' = set cs" by (metis mset_eq_setD)
  with h have "l \<in> set cs'" by simp
  from winner_live [OF this] h obtain r where "winner (canonical_key l) cs' = Some r" and "live r"
    by blast
  then show "\<exists>out r. deduplicateCards cs' = Inr out \<and>
         filter (\<lambda>x. canonical_key x = canonical_key l) out = [r] \<and> live r"
    using output_entry [of "canonical_key l" cs' r] by (simp add: deduplicateCards_eq)
next
  assume "Map_get m (canonical_key c) = Some e \<and> live e \<and> \<not> live c"
  then show "dedup_step c m = Inr m"
    by (simp add: dedup_step_eq step_map_def Map_get_def)
next
  assume "bank a = ascii ''Foo'' \<and> name a = ascii ''J Card'' \<and> isLive a = Some False \<and>
    bank b = ascii ''Foo'' \<and> name b = ascii ''J Card'' \<and> isLive b = Some True"
  then show "deduplicateCards [a, b] = Inr [b]"
    by (simp add: dedup_pair_same_key canonical_key_def truthy_def)
qed

theorem live_beats_static_witness:
  "deduplicateCards [mk_card ''c1'' ''Foo'' ''J Card'' (Some False),
                     mk_card ''c1'' ''Foo'' ''J Card'' (Some True)] =
     Inr [mk_card ''c1'' ''Foo'' ''J Card'' (Some True)] \<and>
   dedup_step (mk_card ''c1'' ''Foo'' ''J Card'' (Some False))
     [(ascii ''foojcard'', mk_card ''c2'' ''Foo'' ''J Card'' (Some True))] =
     Inr [(ascii ''foojcard'', mk_card ''c2'' ''Foo'' ''J Card'' (Some True))] \<and>
   (\<exists>out r. deduplicateCards [mk_card ''c2'' ''Foo'' ''J Card'' (Some True),
                               mk_card ''c1'' ''Foo'' ''J Card'' (Some False)] = Inr out \<and>
      filter (\<lambda>x. canonical_key x = ascii ''foojcard'') out = [r] \<and> live r)"
  using live_beats_static [of "mk_card ''c2'' ''Foo'' ''J Card'' (Some True)"
      "[mk_card ''c1'' ''Foo'' ''J Card'' (Some False), mk_card ''c2'' ''Foo'' ''J Card'' (Some True)]"
      "[mk_card ''c2'' ''Foo'' ''J Card'' (Some True), mk_card ''c1'' ''Foo'' ''J Card'' (Some False)]"
      "[(ascii ''foojcard'', mk_card ''c2'' ''Foo'' ''J Card'' (Some True))]"
      "mk_card ''c1'' ''Foo'' ''J Card'' (Some False)"
      "mk_card ''c2'' ''Foo'' ''J Card'' (Some True)"
      "mk_card ''c1'' ''Foo'' ''J Card'' (Some False)"
      "mk_card ''c1'' ''Foo'' ''J Card'' (Some True)"]
  by (simp add: truthy_def Map_get_def)

text \<open>
  Claim C5. The output has no two records with the same canonical key, and it is no longer
  than the number of distinct canonical keys of the input.
\<close>

theorem one_record_per_key:
  "\<exists>out. deduplicateCards cs = Inr out \<and> distinct (map canonical_key out) \<and>
     length out \<le> card (canonical_key ` set cs)"
proof -
  let ?m = "fold step_map cs []"
  have k: "map canonical_key (map snd ?m) = map fst ?m"
    by (rule keyed_values [OF keyed_scan])
  have d: "distinct (map fst ?m)" using keyed_scan [of cs] by (simp add: keyed_def)
  have "length (map fst ?m) = card (set (map fst ?m))"
    using d by (simp only: distinct_card)
  also have "set (map fst ?m) = canonical_key ` set cs"
    using keys_fold [of cs "[]"] by simp
  finally have "length (map snd ?m) = card (canonical_key ` set cs)" by simp
  with k d show ?thesis by (simp add: deduplicateCards_eq del: map_map)
qed

theorem one_record_per_key_witness:
  "\<exists>out. deduplicateCards [mk_card ''c1'' ''Foo'' ''J Card'' (Some False),
                            mk_card ''c2'' ''Foo'' ''J Card'' (Some True)] = Inr out \<and>
     distinct (map canonical_key out) \<and> length out \<le> 1"
  using one_record_per_key [of "[mk_card ''c1'' ''Foo'' ''J Card'' (Some False),
      mk_card ''c2'' ''Foo'' ''J Card'' (Some True)]"]
  by simp

text \<open>
  Claim C6. Deduplicating the output of \<open>deduplicateCards\<close> returns that output again, as
  the same list.
\<close>

theorem idempotent:
  "\<exists>out. deduplicateCards cs = Inr out \<and> deduplicateCards out = Inr out"
  using fold_keyed_values [of "[]" "fold step_map cs []"] keyed_scan [of cs]
  by (simp add: deduplicateCards_eq)

theorem idempotent_witness:
  "deduplicateCards [mk_card ''c1'' ''Foo'' ''J Card'' (Some False),
                     mk_card ''c2'' ''Foo'' ''J Card'' (Some True)] =
     Inr [mk_card ''c2'' ''Foo'' ''J Card'' (Some True)] \<and>
   deduplicateCards [mk_card ''c2'' ''Foo'' ''J Card'' (Some True)] =
     Inr [mk_card ''c2'' ''Foo'' ''J Card'' (Some True)]"
  using idempotent [of "[mk_card ''c1'' ''Foo'' ''J Card'' (Some False),
      mk_card ''c2'' ''Foo'' ''J Card'' (Some True)]"]
  by (simp add: dedup_pair_same_key truthy_def)

text \<open>
  Claim C9. When no record with key \<open>k\<close> is live, the output entry for \<open>k\<close> is the first
  record of the input with that key. A step that meets a static stored record and a static
  incoming record leaves the map as it is.
\<close>

theorem first_static_kept:
  "(filter (\<lambda>x. canonical_key x = k) cs = f # rest \<and>
    (\<forall>x \<in> set cs. canonical_key x = k \<longrightarrow> \<not> live x) \<longrightarrow>
      (\<exists>out. deduplicateCards cs = Inr out \<and> filter (\<lambda>x. canonical_key x = k) out = [f])) \<and>
   (Map_get m (canonical_key c) = Some e \<and> \<not> live e \<and> \<not> live c \<longrightarrow> dedup_step c m = Inr m)"
proof (intro conjI impI)
  assume "filter (\<lambda>x. canonical_key x = k) cs = f # rest \<and>
    (\<forall>x \<in> set cs. canonical_key x = k \<longrightarrow> \<not> live x)"
  then have "winner k cs = Some f" using winner_static by blast
  then show "\<exists>out. deduplicateCards cs = Inr out \<and> filter (\<lambda>x. canonical_key x = k) out = [f]"
    using output_entry [of k cs f] by (simp add: deduplicateCards_eq)
next
  assume "Map_get m (canonical_key c) = Some e \<and> \<not> live e \<and> \<not> live c"
  then show "dedup_step c m = Inr m"
    by (simp add: dedup_step_eq step_map_def Map_get_def)
qed

theorem first_static_kept_witness:
  "deduplicateCards [mk_card ''c1'' ''Foo'' ''J Card'' (Some False),
                     mk_card ''c2'' ''Foo'' ''J Card'' None] =
     Inr [mk_card ''c1'' ''Foo'' ''J Card'' (Some False)] \<and>
   dedup_step (mk_card ''c2'' ''Foo'' ''J Card'' None)
     [(ascii ''foojcard'', mk_card ''c1'' ''Foo'' ''J Card'' (Some False))] =
     Inr [(ascii ''foojcard'', mk_card ''c1'' ''Foo'' ''J Card'' (Some False))]"
  using first_static_kept [of "ascii ''foojcard''"
      "[mk_card ''c1'' ''Foo'' ''J Card'' (Some False), mk_card ''c2'' ''Foo'' ''J Card'' None]"
      "mk_card ''c1'' ''Foo'' ''J Card'' (Some False)"
      "[mk_card ''c2'' ''Foo'' ''J Card'' None]"
      "[(ascii ''foojcard'', mk_card ''c1'' ''Foo'' ''J Card'' (Some False))]"
      "mk_card ''c2'' ''Foo'' ''J Card'' None"
      "mk_card ''c1'' ''Foo'' ''J Card'' (Some False)"]
  by (simp add: dedup_pair_same_key truthy_def Map_get_def)

text \<open>
  Claim C3, as amended. For every key, the output holds the last live record of the input
  with that key, the first record with that key when none is live, and nothing when no
  record has that key. For every permutation of the input the output has the same
  canonical keys, each with the same provenance. The output is the same set of records
  for all permutations of the input exactly when no two different records of the input
  that share a key are both live, or both without a live record for their key.
\<close>

theorem permuted_input:
  "(\<exists>out. deduplicateCards cs = Inr out \<and>
      filter (\<lambda>x. canonical_key x = k) out =
        (case filter (\<lambda>c. canonical_key c = k \<and> live c) cs of
           [] \<Rightarrow> (case filter (\<lambda>c. canonical_key c = k) cs of [] \<Rightarrow> [] | c # _ \<Rightarrow> [c])
         | l # ls \<Rightarrow> [last (l # ls)])) \<and>
   (mset cs' = mset cs \<longrightarrow>
      (\<exists>out out'. deduplicateCards cs = Inr out \<and> deduplicateCards cs' = Inr out' \<and>
         (\<lambda>r. (canonical_key r, live r)) ` set out = (\<lambda>r. (canonical_key r, live r)) ` set out')) \<and>
   ((\<forall>a \<in> set cs. \<forall>b \<in> set cs.
        canonical_key a = canonical_key b \<and>
        (live a \<and> live b \<or> (\<forall>c \<in> set cs. canonical_key c = canonical_key a \<longrightarrow> \<not> live c))
        \<longrightarrow> a = b)
    \<longleftrightarrow>
    (\<forall>cs''. mset cs'' = mset cs \<longrightarrow>
       (\<exists>out out'. deduplicateCards cs = Inr out \<and> deduplicateCards cs'' = Inr out' \<and>
          set out = set out')))"
proof (intro conjI)
  show "\<exists>out. deduplicateCards cs = Inr out \<and>
      filter (\<lambda>x. canonical_key x = k) out =
        (case filter (\<lambda>c. canonical_key c = k \<and> live c) cs of
           [] \<Rightarrow> (case filter (\<lambda>c. canonical_key c = k) cs of [] \<Rightarrow> [] | c # _ \<Rightarrow> [c])
         | l # ls \<Rightarrow> [last (l # ls)])"
    using output_entry_list [of k cs] by (simp add: deduplicateCards_eq winner_cases)
next
  show "mset cs' = mset cs \<longrightarrow>
      (\<exists>out out'. deduplicateCards cs = Inr out \<and> deduplicateCards cs' = Inr out' \<and>
         (\<lambda>r. (canonical_key r, live r)) ` set out = (\<lambda>r. (canonical_key r, live r)) ` set out')"
  proof
    assume "mset cs' = mset cs"
    then have s: "set cs' = set cs" by (rule mset_eq_setD)
    have "(\<lambda>r. (canonical_key r, live r)) ` set (map snd (fold step_map cs [])) =
          (\<lambda>r. (canonical_key r, live r)) ` set (map snd (fold step_map cs' []))"
      by (simp only: output_keys_liveness s)
    then show "\<exists>out out'. deduplicateCards cs = Inr out \<and> deduplicateCards cs' = Inr out' \<and>
         (\<lambda>r. (canonical_key r, live r)) ` set out = (\<lambda>r. (canonical_key r, live r)) ` set out'"
      unfolding deduplicateCards_eq by blast
  qed
next
  have "order_free cs \<longleftrightarrow>
    (\<forall>cs''. mset cs'' = mset cs \<longrightarrow>
       set (map snd (fold step_map cs'' [])) = set (map snd (fold step_map cs [])))"
  proof
    assume o: "order_free cs"
    show "\<forall>cs''. mset cs'' = mset cs \<longrightarrow>
       set (map snd (fold step_map cs'' [])) = set (map snd (fold step_map cs []))"
    proof (intro allI impI)
      fix cs'' assume "mset cs'' = mset cs"
      then have s: "set cs'' = set cs" by (rule mset_eq_setD)
      with o have "order_free cs''" by (simp add: order_free_def)
      with o show "set (map snd (fold step_map cs'' [])) = set (map snd (fold step_map cs []))"
        by (simp only: output_set_order_free s)
    qed
  next
    assume "\<forall>cs''. mset cs'' = mset cs \<longrightarrow>
       set (map snd (fold step_map cs'' [])) = set (map snd (fold step_map cs []))"
    then show "order_free cs" by (rule same_outputs_order_free)
  qed
  then show "(\<forall>a \<in> set cs. \<forall>b \<in> set cs.
        canonical_key a = canonical_key b \<and>
        (live a \<and> live b \<or> (\<forall>c \<in> set cs. canonical_key c = canonical_key a \<longrightarrow> \<not> live c))
        \<longrightarrow> a = b)
    \<longleftrightarrow>
    (\<forall>cs''. mset cs'' = mset cs \<longrightarrow>
       (\<exists>out out'. deduplicateCards cs = Inr out \<and> deduplicateCards cs'' = Inr out' \<and>
          set out = set out'))"
    unfolding order_free_def [symmetric] by (simp add: deduplicateCards_eq eq_commute)
qed

theorem permuted_input_witness:
  "(\<exists>out out'.
      deduplicateCards [mk_card ''s1'' ''Foo'' ''J Card'' (Some False),
                        mk_card ''s2'' ''Foo'' ''J Card'' None,
                        mk_card ''l1'' ''Foo'' ''J Card'' (Some True)] = Inr out \<and>
      deduplicateCards [mk_card ''l1'' ''Foo'' ''J Card'' (Some True),
                        mk_card ''s2'' ''Foo'' ''J Card'' None,
                        mk_card ''s1'' ''Foo'' ''J Card'' (Some False)] = Inr out' \<and>
      set out = set out') \<and>
   (\<exists>out out'.
      deduplicateCards [mk_card ''s1'' ''Foo'' ''J Card'' (Some False),
                        mk_card ''s2'' ''Foo'' ''J Card'' None,
                        mk_card ''l1'' ''Foo'' ''J Card'' (Some True)] = Inr out \<and>
      deduplicateCards [mk_card ''l1'' ''Foo'' ''J Card'' (Some True),
                        mk_card ''s2'' ''Foo'' ''J Card'' None,
                        mk_card ''s1'' ''Foo'' ''J Card'' (Some False)] = Inr out' \<and>
      (\<lambda>r. (canonical_key r, live r)) ` set out = (\<lambda>r. (canonical_key r, live r)) ` set out')"
proof -
  let ?cs = "[mk_card ''s1'' ''Foo'' ''J Card'' (Some False), mk_card ''s2'' ''Foo'' ''J Card'' None,
              mk_card ''l1'' ''Foo'' ''J Card'' (Some True)]"
  let ?cs' = "[mk_card ''l1'' ''Foo'' ''J Card'' (Some True), mk_card ''s2'' ''Foo'' ''J Card'' None,
               mk_card ''s1'' ''Foo'' ''J Card'' (Some False)]"
  have p: "mset ?cs' = mset ?cs" by simp
  have f: "\<forall>a \<in> set ?cs. \<forall>b \<in> set ?cs.
        canonical_key a = canonical_key b \<and>
        (live a \<and> live b \<or> (\<forall>c \<in> set ?cs. canonical_key c = canonical_key a \<longrightarrow> \<not> live c))
        \<longrightarrow> a = b"
    by (simp add: truthy_def)
  from permuted_input [of ?cs "[]" ?cs', THEN conjunct2, THEN conjunct2, THEN iffD1, OF f,
      THEN spec, THEN mp, OF p]
    permuted_input [of ?cs "[]" ?cs', THEN conjunct2, THEN conjunct1, THEN mp, OF p]
  show ?thesis by (rule conjI)
qed

text \<open>
  Claim C3 as stated fails: two live records with the same key are both the last live one
  in one of the two orders.
\<close>

theorem permuted_input_counterexample:
  "mset [mk_card ''a'' ''Foo'' ''J Card'' (Some True), mk_card ''b'' ''Foo'' ''J Card'' (Some True)] =
   mset [mk_card ''b'' ''Foo'' ''J Card'' (Some True), mk_card ''a'' ''Foo'' ''J Card'' (Some True)] \<and>
   deduplicateCards [mk_card ''a'' ''Foo'' ''J Card'' (Some True), mk_card ''b'' ''Foo'' ''J Card'' (Some True)] =
     Inr [mk_card ''b'' ''Foo'' ''J Card'' (Some True)] \<and>
   deduplicateCards [mk_card ''b'' ''Foo'' ''J Card'' (Some True), mk_card ''a'' ''Foo'' ''J Card'' (Some True)] =
     Inr [mk_card ''a'' ''Foo'' ''J Card'' (Some True)] \<and>
   set [mk_card ''b'' ''Foo'' ''J Card'' (Some True)] \<noteq> set [mk_card ''a'' ''Foo'' ''J Card'' (Some True)]"
  by (simp add: dedup_pair_same_key truthy_def differ_by_id ascii_def)

text \<open>
  Claim C7. The canonical key is the concatenation of bank and name, lowercased, with only
  the units of a-z, 0-9 and U+4E00..U+9FA5 kept. Two records whose bank and name differ
  only in units that leave no trace in the key, punctuation among them, have the same key
  and collapse to one output record; so do "Foo-Bar" and "FooBar", with the key "foobar".
\<close>

theorem canonical_key_normalises:
  "canonical_key c = filter is_key_unit (toLowerCase (bank c @ name c)) \<and>
   (\<forall>u \<in> set (canonical_key c). is_key_unit u) \<and>
   (filter contributes (bank a @ name a) = filter contributes (bank b @ name b) \<longrightarrow>
      canonical_key a = canonical_key b \<and> (\<exists>r. deduplicateCards [a, b] = Inr [r])) \<and>
   (bank a @ name a = ascii ''Foo-Bar'' \<and> bank b @ name b = ascii ''FooBar'' \<longrightarrow>
      canonical_key a = ascii ''foobar'' \<and> canonical_key b = ascii ''foobar'' \<and>
      (\<exists>r. deduplicateCards [a, b] = Inr [r]))"
proof (intro conjI impI ballI)
  show "canonical_key c = filter is_key_unit (toLowerCase (bank c @ name c))"
    by (simp add: canonical_key_def replace_non_key_def)
next
  fix u assume "u \<in> set (canonical_key c)"
  then show "is_key_unit u" unfolding canonical_key_def by (rule key_units)
next
  assume h: "filter contributes (bank a @ name a) = filter contributes (bank b @ name b)"
  have "canonical_key a = replace_non_key (toLowerCase (filter contributes (bank a @ name a)))"
    unfolding canonical_key_def by (rule key_of_contributing)
  also have "\<dots> = canonical_key b"
    unfolding canonical_key_def h by (rule key_of_contributing [symmetric])
  finally show k: "canonical_key a = canonical_key b" .
  show "\<exists>r. deduplicateCards [a, b] = Inr [r]"
    by (simp add: dedup_pair_same_key [OF k])
next
  assume h: "bank a @ name a = ascii ''Foo-Bar'' \<and> bank b @ name b = ascii ''FooBar''"
  then show ka: "canonical_key a = ascii ''foobar''" and kb: "canonical_key b = ascii ''foobar''"
    by (simp_all add: canonical_key_def key_Foo_Bar)
  then have "canonical_key a = canonical_key b" by simp
  then show "\<exists>r. deduplicateCards [a, b] = Inr [r]"
    by (simp add: dedup_pair_same_key)
qed


theorem canonical_key_normalises_witness:
  "canonical_key (mk_card ''c1'' ''Foo-'' ''Bar'' None) = ascii ''foobar'' \<and>
   canonical_key (mk_card ''c2'' ''Foo'' ''Bar'' None) = ascii ''foobar'' \<and>
   (\<exists>r. deduplicateCards [mk_card ''c1'' ''Foo-'' ''Bar'' None, mk_card ''c2'' ''Foo'' ''Bar'' None]
      = Inr [r])"
proof -
  have h: "bank (mk_card ''c1'' ''Foo-'' ''Bar'' None) @ name (mk_card ''c1'' ''Foo-'' ''Bar'' None)
        = ascii ''Foo-Bar'' \<and>
      bank (mk_card ''c2'' ''Foo'' ''Bar'' None) @ name (mk_card ''c2'' ''Foo'' ''Bar'' None)
        = ascii ''FooBar''"
    by (simp add: ascii_def)
  show ?thesis
    by (rule canonical_key_normalises [THEN conjunct2, THEN conjunct2, THEN conjunct2, THEN mp, OF h])
qed


text \<open>
  Claim C8. \<open>deduplicateCards\<close> returns a list for every input, and every record of that
  list is a record of the input; the step never reaches the read of an absent map entry.
  A record whose bank and name hold no unit that contributes to the key has the empty key
  and is handled like any other record. On a store in which \<open>cards_ref\<close> is an array
  of references to the cards \<open>cs\<close>, the call returns, every object that was in the store
  before the call is the same after it, so the input array still holds the same
  references and these still lead to the same cards; the result is a new array, whose
  references are references of the input array and lead to the cards that the function on
  values returns.
\<close>

theorem pure_and_total:
  "(\<exists>out. deduplicateCards cs = Inr out \<and> set out \<subseteq> set cs) \<and>
   (\<exists>m'. dedup_step c m = Inr m') \<and>
   ((\<forall>u \<in> set (bank c @ name c). \<not> contributes u) \<longrightarrow>
      canonical_key c = [] \<and> deduplicateCards [c] = Inr [c]) \<and>
   (read_array h cards_ref = Some refs \<and> map (read_card h) refs = map Some cs \<longrightarrow>
      (\<exists>h' res outs out. deduplicateCards_store h cards_ref = Inr (h', res) \<and>
         take (length h) h' = h \<and>
         read_array h' cards_ref = Some refs \<and> map (read_card h') refs = map Some cs \<and>
         length h \<le> res \<and> read_array h' res = Some outs \<and> set outs \<subseteq> set refs \<and>
         deduplicateCards cs = Inr out \<and> map (read_card h') outs = map Some out))"
proof (intro conjI impI)
  show "\<exists>out. deduplicateCards cs = Inr out \<and> set out \<subseteq> set cs"
    using output_subset [of cs] by (simp add: deduplicateCards_eq)
  show "\<exists>m'. dedup_step c m = Inr m'" by (simp add: dedup_step_eq)
next
  assume "\<forall>u \<in> set (bank c @ name c). \<not> contributes u"
  then have "filter contributes (bank c @ name c) = []"
    by (simp add: filter_empty_conv)
  then have "canonical_key c = replace_non_key (toLowerCase [])"
    unfolding canonical_key_def using key_of_contributing [of "bank c @ name c"] by simp
  then show "canonical_key c = []" by (simp add: replace_non_key_def toLowerCase_def)
  show "deduplicateCards [c] = Inr [c]" by (rule dedup_single)
next
  assume "read_array h cards_ref = Some refs \<and> map (read_card h) refs = map Some cs"
  then show "\<exists>h' res outs out. deduplicateCards_store h cards_ref = Inr (h', res) \<and>
         take (length h) h' = h \<and>
         read_array h' cards_ref = Some refs \<and> map (read_card h') refs = map Some cs \<and>
         length h \<le> res \<and> read_array h' res = Some outs \<and> set outs \<subseteq> set refs \<and>
         deduplicateCards cs = Inr out \<and> map (read_card h') outs = map Some out"
    using deduplicateCards_store_frame [of h cards_ref refs cs] by blast
qed

theorem pure_and_total_witness:
  "(canonical_key (mk_card ''c1'' ''--'' ''!?'' None) = [] \<and>
    deduplicateCards [mk_card ''c1'' ''--'' ''!?'' None] = Inr [mk_card ''c1'' ''--'' ''!?'' None]) \<and>
   (\<exists>h' res outs out.
      deduplicateCards_store
        [CardObj (mk_card ''c1'' ''Foo'' ''J Card'' (Some False)),
         CardObj (mk_card ''c2'' ''Foo'' ''J Card'' (Some True)), ArrayObj [0, 1]] 2 = Inr (h', res) \<and>
      take 3 h' =
        [CardObj (mk_card ''c1'' ''Foo'' ''J Card'' (Some False)),
         CardObj (mk_card ''c2'' ''Foo'' ''J Card'' (Some True)), ArrayObj [0, 1]] \<and>
      read_array h' 2 = Some [0, 1] \<and>
      map (read_card h') [0, 1] =
        map Some [mk_card ''c1'' ''Foo'' ''J Card'' (Some False),
                  mk_card ''c2'' ''Foo'' ''J Card'' (Some True)] \<and>
      3 \<le> res \<and> read_array h' res = Some outs \<and> set outs \<subseteq> set [0, 1] \<and>
      deduplicateCards [mk_card ''c1'' ''Foo'' ''J Card'' (Some False),
                        mk_card ''c2'' ''Foo'' ''J Card'' (Some True)] = Inr out \<and>
      map (read_card h') outs = map Some out)"
proof -
  have h1: "\<forall>u \<in> set (bank (mk_card ''c1'' ''--'' ''!?'' None) @ name (mk_card ''c1'' ''--'' ''!?'' None)).
      \<not> contributes u"
    by (simp add: ascii_def contributes_def is_key_unit_def)
  let ?h = "[CardObj (mk_card ''c1'' ''Foo'' ''J Card'' (Some False)),
         CardObj (mk_card ''c2'' ''Foo'' ''J Card'' (Some True)), ArrayObj [0, 1]]"
  have h2: "read_array ?h 2 = Some [0, 1] \<and>
      map (read_card ?h) [0, 1] =
        map Some [mk_card ''c1'' ''Foo'' ''J Card'' (Some False),
                  mk_card ''c2'' ''Foo'' ''J Card'' (Some True)]"
    by (simp add: read_array_def read_card_def lookup_def)
  have l: "length ?h = 3" by simp
  from pure_and_total [THEN conjunct2, THEN conjunct2, THEN conjunct1, THEN mp, OF h1]
    pure_and_total [THEN conjunct2, THEN conjunct2, THEN conjunct2, THEN mp, OF h2]
  show ?thesis unfolding l by (rule conjI)
qed

text \<open>
  Claim C10, as amended. The merged list is the batch followed by the previous cards,
  less every card whose id occurs at an earlier position of that concatenation, in the
  order of the concatenation. It has no two cards with the same id and holds only cards
  of the batch and of the previous state. For every id, its card is the first card of
  the batch with that id and, when the batch has none, the first card of the previous
  state with that id. When the ids are distinct within the batch and within the previous
  state, the merged list is the batch followed by the previous cards whose id does not
  occur in the batch.
\<close>

theorem merge_rule:
  "merge_batch newCards prev =
     map ((!) (newCards @ prev))
       (filter (\<lambda>i. card_id ((newCards @ prev) ! i) \<notin> card_id ` set (take i (newCards @ prev)))
          [0 ..< length (newCards @ prev)]) \<and>
   distinct (map card_id (merge_batch newCards prev)) \<and>
   set (merge_batch newCards prev) \<subseteq> set newCards \<union> set prev \<and>
   find (\<lambda>c. card_id c = i) (merge_batch newCards prev) =
     (case find (\<lambda>c. card_id c = i) newCards of
        Some x \<Rightarrow> Some x
      | None \<Rightarrow> find (\<lambda>c. card_id c = i) prev) \<and>
   (distinct (map card_id newCards) \<and> distinct (map card_id prev) \<longrightarrow>
      merge_batch newCards prev =
        newCards @ filter (\<lambda>c. card_id c \<notin> card_id ` set newCards) prev)"
proof (intro conjI)
  show "merge_batch newCards prev =
     map ((!) (newCards @ prev))
       (filter (\<lambda>i. card_id ((newCards @ prev) ! i) \<notin> card_id ` set (take i (newCards @ prev)))
          [0 ..< length (newCards @ prev)])"
    by (rule merge_batch_first_occurrences)
  show "distinct (map card_id (merge_batch newCards prev))"
    by (simp add: merge_batch_def filter_seen_distinct)
  show "set (merge_batch newCards prev) \<subseteq> set newCards \<union> set prev"
    using filter_seen_subset [of "{}" "newCards @ prev"] by (simp add: merge_batch_def)
  show "find (\<lambda>c. card_id c = i) (merge_batch newCards prev) =
     (case find (\<lambda>c. card_id c = i) newCards of
        Some x \<Rightarrow> Some x
      | None \<Rightarrow> find (\<lambda>c. card_id c = i) prev)"
    by (rule merge_batch_find)
  show "distinct (map card_id newCards) \<and> distinct (map card_id prev) \<longrightarrow>
      merge_batch newCards prev =
        newCards @ filter (\<lambda>c. card_id c \<notin> card_id ` set newCards) prev"
    by (simp add: merge_batch_distinct_ids)
qed

theorem merge_rule_witness:
  "merge_batch [mk_card ''n'' ''Bar'' ''New'' (Some True)]
     [mk_card ''n'' ''Bar'' ''Old'' None, mk_card ''s'' ''Foo'' ''One'' None] =
   [mk_card ''n'' ''Bar'' ''New'' (Some True), mk_card ''s'' ''Foo'' ''One'' None]"
proof -
  have h: "distinct (map card_id [mk_card ''n'' ''Bar'' ''New'' (Some True)]) \<and>
      distinct (map card_id [mk_card ''n'' ''Bar'' ''Old'' None, mk_card ''s'' ''Foo'' ''One'' None])"
    by (simp add: ascii_def)
  from merge_rule [THEN conjunct2, THEN conjunct2, THEN conjunct2, THEN conjunct2, THEN mp, OF h]
  show ?thesis by (simp add: ascii_def)
qed


text \<open>
  Claim C10 as stated fails: of two stored cards with the same id the second one is
  dropped although its id does not occur in the batch.
\<close>

theorem merge_rule_counterexample:
  "mk_card ''s'' ''Foo'' ''Two'' None \<in>
     set [mk_card ''s'' ''Foo'' ''One'' None, mk_card ''s'' ''Foo'' ''Two'' None] \<and>
   card_id (mk_card ''s'' ''Foo'' ''Two'' None) \<notin>
     card_id ` set [mk_card ''n'' ''Bar'' ''New'' (Some True)] \<and>
   merge_batch [mk_card ''n'' ''Bar'' ''New'' (Some True)]
     [mk_card ''s'' ''Foo'' ''One'' None, mk_card ''s'' ''Foo'' ''Two'' None] =
     [mk_card ''n'' ''Bar'' ''New'' (Some True), mk_card ''s'' ''Foo'' ''One'' None] \<and>
   mk_card ''s'' ''Foo'' ''Two'' None \<notin>
     set [mk_card ''n'' ''Bar'' ''New'' (Some True), mk_card ''s'' ''Foo'' ''One'' None]"
  by (simp add: merge_batch_def differ_by_id differ_by_name ascii_def)

end
